theory Spec2Isabelle
  imports Complex_Main "HOL-Library.Sublist"
begin

section \<open>The model: data and operations of the quiz backend\<close>

subsection \<open>Strings\<close>

text \<open>
  A Python \<^verbatim>\<open>str\<close> is a sequence of Unicode code points. It is modelled as a list of
  natural numbers, one per code point, so that \<^verbatim>\<open>chr\<close>, \<^verbatim>\<open>len\<close> and indexing count what
  Python counts. \<open>str\<close> turns a literal into such a list.
\<close>

type_synonym pystr = "nat list"

definition str :: "string \<Rightarrow> pystr" where
  "str s = map of_char s"

text \<open>The newline character, as a one-character string.\<close>

definition nl :: pystr where
  "nl = [10]"

text \<open>
  Splitting at every character of a class, as \<^verbatim>\<open>re.split(r'[...]', s)\<close> does: \<open>n\<close> separators
  give \<open>n + 1\<close> pieces, empty ones included.
\<close>

fun split_on :: "(nat \<Rightarrow> bool) \<Rightarrow> pystr \<Rightarrow> pystr list" where
  "split_on d [] = [[]]"
| "split_on d (c # cs) =
     (if d c then [] # split_on d cs
      else (case split_on d cs of [] \<Rightarrow> [[c]] | w # ws \<Rightarrow> (c # w) # ws))"

subsection \<open>Exceptions\<close>

text \<open>
  The exceptions the handlers raise or catch. \<open>HTTPException\<close> carries the status code and
  the detail; an exception that reaches the framework uncaught is answered with status 500.
\<close>

datatype exn =
    HTTPException nat pystr
  | ValueError pystr
  | KeyError pystr
  | ZeroDivisionError pystr
  | OverflowError pystr
  | Exception pystr

text \<open>
  \<^verbatim>\<open>chr\<close> maps a code point to the one-character string; it raises \<^verbatim>\<open>ValueError\<close> outside
  \<^verbatim>\<open>range(0x110000)\<close>. \<^verbatim>\<open>list.index\<close> returns the first position of a value and raises
  \<^verbatim>\<open>ValueError\<close> when there is none.
\<close>

definition chr :: "nat \<Rightarrow> exn + nat" where
  "chr i = (if i < 1114112 then Inr i
            else Inl (ValueError (str ''chr() arg not in range(0x110000)'')))"

fun list_index :: "'a list \<Rightarrow> 'a \<Rightarrow> exn + nat" where
  "list_index [] x = Inl (ValueError (str ''x is not in list''))"
| "list_index (y # ys) x =
     (if y = x then Inr 0
      else (case list_index ys x of Inl e \<Rightarrow> Inl e | Inr i \<Rightarrow> Inr (Suc i)))"

subsection \<open>Questions as returned by the store\<close>

text \<open>
  \<^verbatim>\<open>fs.get_questions_by_uid_and_topic\<close> returns a list of dictionaries with the keys
  \<^verbatim>\<open>'text'\<close>, \<^verbatim>\<open>'choices'\<close> and \<^verbatim>\<open>'correct_choice'\<close>.
\<close>

record question =
  qtext :: pystr
  choices :: "pystr list"
  correct_choice :: pystr

subsection \<open>Duplicate detection (\<^verbatim>\<open>get_duplicate_questions_answers\<close>)\<close>

text \<open>
  The entries appended to \<^verbatim>\<open>duplicate_questions\<close> and \<^verbatim>\<open>duplicate_answers\<close>.
\<close>

record dup_question =
  dq_question :: pystr
  dq_position1 :: nat
  dq_position2 :: nat

record dup_answer =
  da_answer :: pystr
  da_position1 :: nat
  da_position2 :: nat

text \<open>
  The innermost loop, \<^verbatim>\<open>for ans1 in q1['choices']: if ans1 in q2['choices']: append\<close>.
\<close>
definition answers_loop :: "question \<Rightarrow> question \<Rightarrow> nat \<Rightarrow> nat \<Rightarrow> dup_answer list \<Rightarrow> dup_answer list" where
  "answers_loop q1 q2 idx1 idx2 duplicate_answers =
     fold (\<lambda>ans1 acc.
             if ans1 \<in> set (choices q2)
             then acc @ [\<lparr>da_answer = ans1, da_position1 = idx1, da_position2 = idx2\<rparr>]
             else acc)
          (choices q1) duplicate_answers"

text \<open>
  The loop over \<^verbatim>\<open>enumerate(questions[idx1 + 1:], start=idx1 + 1)\<close>: the text comparison, then
  the answers loop, for each later question.
\<close>

definition inner_loop ::
  "question list \<Rightarrow> nat \<Rightarrow> question \<Rightarrow> dup_question list \<times> dup_answer list
     \<Rightarrow> dup_question list \<times> dup_answer list" where
  "inner_loop questions idx1 q1 acc =
     fold (\<lambda>(idx2, q2) (duplicate_questions, duplicate_answers).
             ((if qtext q1 = qtext q2
               then duplicate_questions @
                      [\<lparr>dq_question = qtext q1, dq_position1 = idx1, dq_position2 = idx2\<rparr>]
               else duplicate_questions),
              answers_loop q1 q2 idx1 idx2 duplicate_answers))
          (enumerate (idx1 + 1) (drop (idx1 + 1) questions)) acc"

text \<open>
  The outer loop over \<^verbatim>\<open>enumerate(questions)\<close>, starting from two empty lists; the handler
  returns both.
\<close>

definition get_duplicate_questions_answers ::
  "question list \<Rightarrow> dup_question list \<times> dup_answer list" where
  "get_duplicate_questions_answers questions =
     fold (\<lambda>(idx1, q1) acc. inner_loop questions idx1 q1 acc) (enumerate 0 questions) ([], [])"


text \<open>
  What the specification asks for one pair of positions: one duplicate-question entry when
  the two texts are equal, and the duplicate-answer entries of the pair.
\<close>

definition pair_questions :: "question list \<Rightarrow> nat \<Rightarrow> nat \<Rightarrow> dup_question list" where
  "pair_questions qs i j =
     (if qtext (qs ! i) = qtext (qs ! j)
      then [\<lparr>dq_question = qtext (qs ! i), dq_position1 = i, dq_position2 = j\<rparr>] else [])"

definition pair_answers :: "question list \<Rightarrow> nat \<Rightarrow> nat \<Rightarrow> dup_answer list" where
  "pair_answers qs i j =
     map (\<lambda>a. \<lparr>da_answer = a, da_position1 = i, da_position2 = j\<rparr>)
         (filter (\<lambda>a. a \<in> set (choices (qs ! j))) (choices (qs ! i)))"

text \<open>The entries of a result that carry a given pair of positions.\<close>

definition at_pair_q :: "nat \<Rightarrow> nat \<Rightarrow> dup_question \<Rightarrow> bool" where
  "at_pair_q i j e = (dq_position1 e = i \<and> dq_position2 e = j)"

definition at_pair_a :: "nat \<Rightarrow> nat \<Rightarrow> dup_answer \<Rightarrow> bool" where
  "at_pair_a i j e = (da_position1 e = i \<and> da_position2 e = j)"

text \<open>Two concrete question lists.\<close>

definition example_questions :: "question list" where
  "example_questions =
     [\<lparr>qtext = str ''Q'', choices = [str ''a'', str ''b'', str ''c'', str ''d''], correct_choice = str ''a''\<rparr>,
      \<lparr>qtext = str ''R'', choices = [str ''e'', str ''f'', str ''g'', str ''h''], correct_choice = str ''e''\<rparr>,
      \<lparr>qtext = str ''Q'', choices = [str ''i'', str ''j'', str ''k'', str ''l''], correct_choice = str ''i''\<rparr>]"

definition repeated_choice_questions :: "question list" where
  "repeated_choice_questions =
     [\<lparr>qtext = str ''Q'', choices = [str ''a'', str ''a'', str ''b'', str ''c''], correct_choice = str ''a''\<rparr>,
      \<lparr>qtext = str ''R'', choices = [str ''a'', str ''x'', str ''y'', str ''z''], correct_choice = str ''a''\<rparr>]"


subsection \<open>True division of integers\<close>

text \<open>
  Python's \<^verbatim>\<open>a / b\<close> on two integers returns the IEEE 754 double nearest to the quotient,
  ties going to the even significand, and raises \<^verbatim>\<open>OverflowError\<close> when that is beyond the
  largest double. A double is modelled by the rational number it denotes. The positive
  case is computed on naturals: \<open>bit_length\<close> is \<^verbatim>\<open>int.bit_length\<close>, \<open>binade a b\<close> is the
  integer \<open>e\<close> with \<open>2^e \<le> a / b < 2^(e+1)\<close>, the exponent of the last place is
  \<open>max e (-1022) - 52\<close> (53 significant bits, subnormal below \<open>2^-1022\<close>), and the significand
  is the quotient in units of the last place, rounded half to even.
\<close>

fun bit_length :: "nat \<Rightarrow> nat" where
  "bit_length n = (if n = 0 then 0 else Suc (bit_length (n div 2)))"

declare bit_length.simps [simp del]




definition pow2 :: "int \<Rightarrow> rat" where
  "pow2 k = (if 0 \<le> k then 2 ^ nat k else 1 / 2 ^ nat (- k))"



subsection \<open>Stored question documents and rating (\<^verbatim>\<open>rate_questions\<close>)\<close>

text \<open>
  The request bodies \<^verbatim>\<open>Rating\<close> and \<^verbatim>\<open>ModelRatingInput\<close>. An entry of a stored
  \<^verbatim>\<open>rating\<close> list is a dictionary with the same two keys as \<^verbatim>\<open>Rating\<close>.
\<close>

record Rating =
  uid :: pystr
  rate :: int


text \<open>
  A question document of the store, with the fields the handlers read or write. A field
  that the document does not have is \<open>None\<close>. \<^verbatim>\<open>all_ans\<close> is a dictionary from the strings
  \<^verbatim>\<open>"0"\<close>, \<^verbatim>\<open>"1"\<close>, ... to the choices, kept as an association list.
  \<^verbatim>\<open>average_rating\<close> is a double, given by the rational number it denotes.
\<close>

record question_doc =
  question :: "pystr option"
  all_ans :: "(pystr \<times> pystr) list option"
  crct_ans :: "pystr option"
  rating :: "Rating list option"
  average_rating :: "rat option"


















subsection \<open>Aiken export (\<^verbatim>\<open>export_questions\<close>)\<close>

text \<open>
  The inner loop over \<^verbatim>\<open>enumerate(question['choices'])\<close>, appending
  \<^verbatim>\<open>f"{chr(65 + idx)}. {answer}\n"\<close> to the content.
\<close>

fun choices_loop :: "(nat \<times> pystr) list \<Rightarrow> pystr \<Rightarrow> exn + pystr" where
  "choices_loop [] aiken_format_content = Inr aiken_format_content"
| "choices_loop ((idx, answer) # rest) aiken_format_content =
     (case chr (65 + idx) of
        Inl e \<Rightarrow> Inl e
      | Inr letter \<Rightarrow>
          choices_loop rest (aiken_format_content @ [letter] @ str ''. '' @ answer @ nl))"

text \<open>
  The loop over the questions: the stem line, the choice lines, the index of the correct
  choice, its letter, and the \<^verbatim>\<open>ANSWER\<close> line followed by an empty line. An exception
  raised on the way ends the loop.
\<close>

fun questions_loop :: "question list \<Rightarrow> pystr \<Rightarrow> exn + pystr" where
  "questions_loop [] aiken_format_content = Inr aiken_format_content"
| "questions_loop (q # rest) aiken_format_content =
     (case choices_loop (enumerate 0 (choices q))
             (aiken_format_content @ qtext q @ nl) of
        Inl e \<Rightarrow> Inl e
      | Inr with_choices \<Rightarrow>
          (case list_index (choices q) (correct_choice q) of
             Inl e \<Rightarrow> Inl e
           | Inr correct_choice_index \<Rightarrow>
               (case chr (65 + correct_choice_index) of
                  Inl e \<Rightarrow> Inl e
                | Inr correct_letter \<Rightarrow>
                    questions_loop rest
                      (with_choices @ str ''ANSWER: '' @ [correct_letter] @ nl @ nl))))"

text \<open>The content written to the file, starting from the empty string.\<close>

definition aiken_format :: "question list \<Rightarrow> exn + pystr" where
  "aiken_format questions = questions_loop questions []"

text \<open>
  The format as the specification words it: the letter of a position, the line of a
  choice, the first position of a value in a list, and the block of one question (stem
  line, one line per choice, answer line, blank line).
\<close>

definition position_letter :: "nat \<Rightarrow> nat" where
  "position_letter i = of_char CHR ''A'' + i"

definition choice_line :: "nat \<Rightarrow> pystr \<Rightarrow> pystr" where
  "choice_line i c = [position_letter i] @ str ''. '' @ c @ nl"

definition first_index :: "'a list \<Rightarrow> 'a \<Rightarrow> nat" where
  "first_index xs x = length (takeWhile (\<lambda>y. y \<noteq> x) xs)"

definition toAiken_block :: "question \<Rightarrow> pystr" where
  "toAiken_block q =
     qtext q @ nl
     @ concat (map (\<lambda>i. choice_line i (choices q ! i)) [0..<length (choices q)])
     @ str ''ANSWER: '' @ [position_letter (first_index (choices q) (correct_choice q))] @ nl
     @ nl"

definition toAiken :: "question list \<Rightarrow> pystr" where
  "toAiken qs = concat (map toAiken_block qs)"

text \<open>
  Reading a block back: the last non-empty line must be \<^verbatim>\<open>ANSWER: \<close> followed by one
  character, the letter.
\<close>

definition read_answer_letter :: "pystr \<Rightarrow> nat option" where
  "read_answer_letter out =
     (case rev (filter (\<lambda>l. l \<noteq> []) (split_on (\<lambda>c. c = 10) out)) of
        [] \<Rightarrow> None
      | l # _ \<Rightarrow> if length l = 9 \<and> take 8 l = str ''ANSWER: '' then Some (l ! 8) else None)"

text \<open>A question whose correct choice occurs twice among its choices.\<close>

definition sample_question :: question where
  "sample_question = \<lparr>qtext = str ''2 + 2 = ?'',
      choices = [str ''3'', str ''4'', str ''5'', str ''4''], correct_choice = str ''4''\<rparr>"


subsection \<open>The generation pipeline (\<^verbatim>\<open>process_request\<close>, \<^verbatim>\<open>get_questions\<close>)\<close>

text \<open>
  What the store hands back for a run is a JSON-like value; the handlers only pass it on.
\<close>

datatype json =
    JNull
  | JNum int
  | JStr pystr
  | JArr "json list"
  | JObj "(pystr \<times> json) list"

text \<open>The request body \<^verbatim>\<open>ModelInput\<close>.\<close>

record ModelInput =
  mi_context :: pystr
  mi_uid :: pystr
  mi_name :: pystr

text \<open>
  The collaborators of the pipeline, none of which is part of these sources: the
  translator (\<^verbatim>\<open>GoogleTranslator(source='vi', target='en').translate\<close>), the four model
  calls of \<^verbatim>\<open>generate_que_n_ans\<close> with the arguments the code passes, and the two store
  calls of \<^verbatim>\<open>FirebaseService\<close>. Each either raises or returns.
\<close>

record collaborators =
  translate :: "pystr \<Rightarrow> exn + pystr"
  get_all_summary :: "pystr \<Rightarrow> exn + pystr list \<times> pystr list"
  get_keywords :: "pystr list \<Rightarrow> pystr list \<Rightarrow> exn + pystr list"
  get_output :: "pystr list \<Rightarrow> exn + pystr list \<times> pystr list list"
  get_all_questions :: "pystr list \<Rightarrow> pystr list \<Rightarrow> exn + pystr list"
  update_generated_status :: "ModelInput \<Rightarrow> bool \<Rightarrow> exn + unit"
  send_results_to_fs ::
    "ModelInput \<Rightarrow> pystr list \<Rightarrow> pystr list \<Rightarrow> pystr list list \<Rightarrow> pystr \<Rightarrow> exn + json"

text \<open>
  The calls made to the store, in the order in which they are made: the pipeline threads
  this list, appending a call when it makes it, whatever the call's outcome.
\<close>

datatype fs_call =
    UpdateGeneratedStatus ModelInput bool
  | SendResultsToFs ModelInput "pystr list" "pystr list" "pystr list list" pystr

text \<open>
  \<^verbatim>\<open>generate_que_n_ans\<close>: summary, keywords, answers, questions, each from the results
  before it; the first exception ends it.
\<close>

definition generate_que_n_ans ::
  "collaborators \<Rightarrow> pystr \<Rightarrow> exn + pystr list \<times> pystr list \<times> pystr list list" where
  "generate_que_n_ans c context =
     (case get_all_summary c context of
        Inl e \<Rightarrow> Inl e
      | Inr (summary, splitted_text) \<Rightarrow>
     (case get_keywords c splitted_text summary of
        Inl e \<Rightarrow> Inl e
      | Inr filtered_kws \<Rightarrow>
     (case get_output c filtered_kws of
        Inl e \<Rightarrow> Inl e
      | Inr (correct_answers, all_answers) \<Rightarrow>
     (case get_all_questions c summary correct_answers of
        Inl e \<Rightarrow> Inl e
      | Inr questions \<Rightarrow> Inr (questions, correct_answers, all_answers)))))"

text \<open>
  \<^verbatim>\<open>process_request\<close>: both translations are assigned to the request, the status is set,
  the questions are generated, the status is cleared, the results are sent to the store.
  There is no \<^verbatim>\<open>try\<close> in the function: an exception leaves it at once.
\<close>

definition process_request ::
  "collaborators \<Rightarrow> fs_call list \<Rightarrow> ModelInput \<Rightarrow> fs_call list \<times> (exn + json)" where
  "process_request c calls request =
     (case translate c (mi_context request) of
        Inl e \<Rightarrow> (calls, Inl e)
      | Inr context' \<Rightarrow>
     (case translate c (mi_name request) of
        Inl e \<Rightarrow> (calls, Inl e)
      | Inr name' \<Rightarrow>
     (let request = request\<lparr>mi_context := context', mi_name := name'\<rparr>;
          calls = calls @ [UpdateGeneratedStatus request True] in
      case update_generated_status c request True of
        Inl e \<Rightarrow> (calls, Inl e)
      | Inr _ \<Rightarrow>
     (case generate_que_n_ans c (mi_context request) of
        Inl e \<Rightarrow> (calls, Inl e)
      | Inr (questions, correct_answers, all_answers) \<Rightarrow>
     (let calls = calls @ [UpdateGeneratedStatus request False] in
      case update_generated_status c request False of
        Inl e \<Rightarrow> (calls, Inl e)
      | Inr _ \<Rightarrow>
     (let calls = calls @ [SendResultsToFs request questions correct_answers all_answers (mi_context request)] in
      case send_results_to_fs c request questions correct_answers all_answers (mi_context request) of
        Inl e \<Rightarrow> (calls, Inl e)
      | Inr results \<Rightarrow> (calls, Inr results)))))))"

text \<open>
  The character class \<^verbatim>\<open>[.!?]\<close>; the characters that \<^verbatim>\<open>str.strip()\<close> removes (those for
  which \<^verbatim>\<open>str.isspace\<close> holds); \<^verbatim>\<open>str.strip()\<close>; and the list comprehension that strips the
  pieces and keeps the non-empty ones.
\<close>

definition sentence_delimiters :: "nat \<Rightarrow> bool" where
  "sentence_delimiters ch =
     (ch = of_char CHR ''.'' \<or> ch = of_char CHR ''!'' \<or> ch = of_char CHR ''?'')"

definition isspace :: "nat \<Rightarrow> bool" where
  "isspace ch =
     ((9 \<le> ch \<and> ch \<le> 13) \<or> (28 \<le> ch \<and> ch \<le> 32) \<or> ch = 133 \<or> ch = 160 \<or> ch = 5760
      \<or> (8192 \<le> ch \<and> ch \<le> 8202) \<or> ch = 8232 \<or> ch = 8233 \<or> ch = 8239 \<or> ch = 8287
      \<or> ch = 12288)"

definition strip :: "pystr \<Rightarrow> pystr" where
  "strip s = rev (dropWhile isspace (rev (dropWhile isspace s)))"

definition split_sentences :: "pystr \<Rightarrow> pystr list" where
  "split_sentences context =
     map strip (filter (\<lambda>sentence. strip sentence \<noteq> []) (split_on sentence_delimiters context))"

text \<open>
  The loop of \<^verbatim>\<open>get_questions\<close>: one \<^verbatim>\<open>process_request\<close> per sentence, with the uid and the
  name of the incoming request, its result appended to \<^verbatim>\<open>results\<close>.
\<close>

fun requests_loop ::
  "collaborators \<Rightarrow> ModelInput \<Rightarrow> pystr list \<Rightarrow> fs_call list \<Rightarrow> json list
     \<Rightarrow> fs_call list \<times> (exn + json list)" where
  "requests_loop c request [] calls results = (calls, Inr results)"
| "requests_loop c request (sentence # rest) calls results =
     (case process_request c calls
             \<lparr>mi_context = sentence, mi_uid = mi_uid request, mi_name = mi_name request\<rparr> of
        (calls', Inl e) \<Rightarrow> (calls', Inl e)
      | (calls', Inr result) \<Rightarrow> requests_loop c request rest calls' (results @ [result]))"

text \<open>The handler: the content of its \<^verbatim>\<open>JSONResponse\<close>.\<close>

definition get_questions ::
  "collaborators \<Rightarrow> fs_call list \<Rightarrow> ModelInput \<Rightarrow> fs_call list \<times> (exn + json)" where
  "get_questions c calls request =
     (case requests_loop c request (split_sentences (mi_context request)) calls [] of
        (calls', Inl e) \<Rightarrow> (calls', Inl e)
      | (calls', Inr results) \<Rightarrow>
          (calls', Inr (JObj [(str ''status'', JNum 200), (str ''data'', JArr results)])))"

text \<open>
  Whether a list of store calls has one that clears the status; the fragments of a context
  as the specification words them (split at the sentence punctuation, the empty and the
  whitespace-only ones dropped); and running a list of requests one after the other, each
  from the store calls the one before it left, up to the first that fails.
\<close>

definition clearing_attempted :: "fs_call list \<Rightarrow> bool" where
  "clearing_attempted calls =
     list_ex (\<lambda>call. case call of UpdateGeneratedStatus request status \<Rightarrow> \<not> status
                              | SendResultsToFs request questions correct_answers all_answers context \<Rightarrow> False)
             calls"

definition fragments :: "pystr \<Rightarrow> pystr list" where
  "fragments context =
     filter (\<lambda>fragment. \<not> list_all isspace fragment) (split_on sentence_delimiters context)"

fun run_each ::
  "collaborators \<Rightarrow> fs_call list \<Rightarrow> ModelInput list \<Rightarrow> fs_call list \<times> (exn + json list)" where
  "run_each c calls [] = (calls, Inr [])"
| "run_each c calls (request # rest) =
     (case process_request c calls request of
        (calls', Inl e) \<Rightarrow> (calls', Inl e)
      | (calls', Inr out) \<Rightarrow>
          (case run_each c calls' rest of
             (calls'', Inl e) \<Rightarrow> (calls'', Inl e)
           | (calls'', Inr outs) \<Rightarrow> (calls'', Inr (out # outs))))"

text \<open>
  Collaborators that always succeed (every model echoes its input), and three variants in
  which the first model call, the clearing of the status or the persisting call fails.
\<close>

definition echo_pipeline :: collaborators where
  "echo_pipeline =
     \<lparr>translate = (\<lambda>text. Inr text),
      get_all_summary = (\<lambda>context. Inr ([context], [context])),
      get_keywords = (\<lambda>original_list summarized_list. Inr summarized_list),
      get_output = (\<lambda>filtered_kws. Inr (filtered_kws, map (\<lambda>k. [k]) filtered_kws)),
      get_all_questions = (\<lambda>context answer. Inr answer),
      update_generated_status = (\<lambda>request status. Inr ()),
      send_results_to_fs = (\<lambda>request questions correct_answers all_answers context. Inr (JArr (map JStr questions)))\<rparr>"

definition failing_model_pipeline :: collaborators where
  "failing_model_pipeline =
     echo_pipeline\<lparr>get_all_summary := (\<lambda>context. Inl (Exception (str ''model failure'')))\<rparr>"

definition failing_clear_pipeline :: collaborators where
  "failing_clear_pipeline =
     echo_pipeline\<lparr>update_generated_status :=
       (\<lambda>request status. if status then Inr () else Inl (Exception (str ''store failure'')))\<rparr>"

definition failing_persist_pipeline :: collaborators where
  "failing_persist_pipeline =
     echo_pipeline\<lparr>send_results_to_fs :=
       (\<lambda>request questions correct_answers all_answers context. Inl (Exception (str ''store failure'')))\<rparr>"

definition water_request :: ModelInput where
  "water_request = \<lparr>mi_context = str ''Water boils.'', mi_uid = str ''u1'', mi_name = str ''facts''\<rparr>"

definition sky_request :: ModelInput where
  "sky_request = \<lparr>mi_context = str ''The sky is blue. Water boils at 100 degrees.'',
                   mi_uid = str ''u1'', mi_name = str ''facts''\<rparr>"


section \<open>Properties\<close>

subsection \<open>Strings\<close>

lemma split_on_nonempty: "split_on d xs \<noteq> []"
  by (induction xs) (auto split: list.splits)

lemma split_on_append:
  "d c \<Longrightarrow> split_on d (xs @ c # ys) = split_on d xs @ split_on d ys"
proof (induction xs)
  case Nil
  then show ?case by simp
next
  case (Cons x xs)
  then show ?case
    using split_on_nonempty [of d xs] by (cases "split_on d xs") auto
qed

lemma split_on_plain: "\<forall>c \<in> set xs. \<not> d c \<Longrightarrow> split_on d xs = [xs]"
  by (induction xs) auto

lemma split_on_has_line:
  "(filter (\<lambda>l. l \<noteq> []) (split_on d xs) \<noteq> []) = (\<exists>c \<in> set xs. \<not> d c)"
proof (induction xs)
  case Nil
  then show ?case by simp
next
  case (Cons x xs)
  then show ?case
    using split_on_nonempty [of d xs] by (cases "split_on d xs") auto
qed

lemma list_index_first:
  "x \<in> set xs \<Longrightarrow> list_index xs x = Inr (first_index xs x)"
  by (induction xs) (auto simp: first_index_def)

lemma list_index_absent:
  "x \<notin> set xs \<Longrightarrow> list_index xs x = Inl (ValueError (str ''x is not in list''))"
  by (induction xs) auto

lemma first_index_less: "x \<in> set xs \<Longrightarrow> first_index xs x < length xs"
  by (induction xs) (auto simp: first_index_def)

lemma first_index_nth: "x \<in> set xs \<Longrightarrow> xs ! first_index xs x = x"
  by (induction xs) (auto simp: first_index_def)

lemma first_index_least: "j < first_index xs x \<Longrightarrow> xs ! j \<noteq> x"
proof (induction xs arbitrary: j)
  case Nil
  then show ?case by (simp add: first_index_def)
next
  case (Cons y ys)
  then show ?case
    by (cases j) (auto simp: first_index_def split: if_splits)
qed

subsection \<open>Duplicate detection\<close>

lemma fold_append_concat:
  "fold (\<lambda>x acc. acc @ g x) xs acc = acc @ concat (map g xs)"
  by (induction xs arbitrary: acc) simp_all

lemma concat_map_if:
  "concat (map (\<lambda>a. if P a then [f a] else []) xs) = map f (filter P xs)"
  by (induction xs) simp_all

lemma answers_loop_eq:
  "answers_loop q1 q2 i j das =
     das @ map (\<lambda>a. \<lparr>da_answer = a, da_position1 = i, da_position2 = j\<rparr>)
             (filter (\<lambda>a. a \<in> set (choices q2)) (choices q1))"
proof -
  have "answers_loop q1 q2 i j das =
          fold (\<lambda>a acc. acc @ (if a \<in> set (choices q2)
                 then [\<lparr>da_answer = a, da_position1 = i, da_position2 = j\<rparr>] else []))
               (choices q1) das"
    unfolding answers_loop_def by (rule arg_cong [where f = "\<lambda>f. fold f (choices q1) das"]) auto
  also have "\<dots> = das @ concat (map (\<lambda>a. if a \<in> set (choices q2)
                 then [\<lparr>da_answer = a, da_position1 = i, da_position2 = j\<rparr>] else []) (choices q1))"
    by (rule fold_append_concat)
  also have "concat (map (\<lambda>a. if a \<in> set (choices q2)
                 then [\<lparr>da_answer = a, da_position1 = i, da_position2 = j\<rparr>] else []) (choices q1))
             = map (\<lambda>a. \<lparr>da_answer = a, da_position1 = i, da_position2 = j\<rparr>)
             (filter (\<lambda>a. a \<in> set (choices q2)) (choices q1))"
    by (rule concat_map_if)
  finally show ?thesis .
qed

lemma fold_pair_append:
  "fold (\<lambda>x (a, b). (a @ f x, b @ g x)) xs (a0, b0)
     = (a0 @ concat (map f xs), b0 @ concat (map g xs))"
  by (induction xs arbitrary: a0 b0) simp_all

lemma enumerate_drop: "enumerate n (drop n qs) = map (\<lambda>j. (j, qs ! j)) [n..<length qs]"
  by (rule nth_equalityI) (auto simp: nth_enumerate_eq)

lemma inner_loop_eq:
  "inner_loop qs i (qs ! i) (dqs, das) =
     (dqs @ concat (map (pair_questions qs i) [Suc i..<length qs]),
      das @ concat (map (pair_answers qs i) [Suc i..<length qs]))"
proof -
  have "inner_loop qs i (qs ! i) (dqs, das) =
     fold (\<lambda>j (a, b). (a @ pair_questions qs i j, b @ pair_answers qs i j)) [Suc i..<length qs] (dqs, das)"
    unfolding inner_loop_def enumerate_drop Suc_eq_plus1 [symmetric] fold_map
    by (rule arg_cong [where f = "\<lambda>f. fold f [Suc i..<length qs] (dqs, das)"])
       (auto simp: fun_eq_iff answers_loop_eq pair_questions_def pair_answers_def)
  then show ?thesis by (simp add: fold_pair_append)
qed

lemma enumerate_zero: "enumerate 0 qs = map (\<lambda>i. (i, qs ! i)) [0..<length qs]"
  using enumerate_drop [of 0 qs] by simp

lemma fold_inner_loop:
  "fold (\<lambda>i acc. inner_loop qs i (qs ! i) acc) is (dqs, das) =
     (dqs @ concat (map (\<lambda>i. concat (map (pair_questions qs i) [Suc i..<length qs])) is),
      das @ concat (map (\<lambda>i. concat (map (pair_answers qs i) [Suc i..<length qs])) is))"
  by (induction "is" arbitrary: dqs das) (simp_all add: inner_loop_eq)

lemma get_duplicates_eq:
  "get_duplicate_questions_answers qs =
     (concat (map (\<lambda>i. concat (map (pair_questions qs i) [Suc i..<length qs])) [0..<length qs]),
      concat (map (\<lambda>i. concat (map (pair_answers qs i) [Suc i..<length qs])) [0..<length qs]))"
  unfolding get_duplicate_questions_answers_def enumerate_zero fold_map
  by (simp add: comp_def fold_inner_loop)

lemma concat_map_single:
  "distinct xs \<Longrightarrow> x \<in> set xs \<Longrightarrow> (\<And>y. y \<in> set xs \<Longrightarrow> y \<noteq> x \<Longrightarrow> g y = [])
     \<Longrightarrow> concat (map g xs) = g x"
proof (induction xs)
  case Nil
  then show ?case by simp
next
  case (Cons a xs)
  show ?case
  proof (cases "a = x")
    case True
    with Cons.prems have "\<And>y. y \<in> set xs \<Longrightarrow> g y = []" by auto
    then have "concat (map g xs) = []" by simp
    with True show ?thesis by simp
  next
    case False
    with Cons show ?thesis by auto
  qed
qed

lemma concat_map_none: "(\<And>y. y \<in> set xs \<Longrightarrow> g y = []) \<Longrightarrow> concat (map g xs) = []"
  by simp

lemma filter_concat_map: "filter P (concat (map g xs)) = concat (map (\<lambda>x. filter P (g x)) xs)"
  by (induction xs) simp_all

lemma filter_pair_questions:
  "filter (at_pair_q i j) (pair_questions qs i' j') =
     (if i' = i \<and> j' = j then pair_questions qs i j else [])"
  by (auto simp: pair_questions_def at_pair_q_def)

lemma filter_pair_answers:
  "filter (at_pair_a i j) (pair_answers qs i' j') =
     (if i' = i \<and> j' = j then pair_answers qs i j else [])"
  by (auto simp: pair_answers_def at_pair_a_def filter_map comp_def)

lemma nested_select:
  assumes "i < j" "j < n"
    and g: "\<And>i' j'. filter P (f i' j') = (if i' = i \<and> j' = j then f i j else [])"
  shows "filter P (concat (map (\<lambda>i. concat (map (f i) [Suc i..<n])) [0..<n])) = f i j"
proof -
  have inner: "filter P (concat (map (f i') [Suc i'..<n])) = (if i' = i then f i j else [])" for i'
  proof (cases "i' = i")
    case True
    have "concat (map (\<lambda>x. filter P (f i x)) [Suc i..<n]) = filter P (f i j)"
      using assms(1,2) by (intro concat_map_single) (auto simp: g)
    with True show ?thesis by (simp add: filter_concat_map g)
  next
    case False
    then show ?thesis by (simp add: filter_concat_map g)
  qed
  have "filter P (concat (map (\<lambda>i. concat (map (f i) [Suc i..<n])) [0..<n]))
          = concat (map (\<lambda>x. filter P (concat (map (f x) [Suc x..<n]))) [0..<n])"
    by (rule filter_concat_map)
  also have "\<dots> = filter P (concat (map (f i) [Suc i..<n]))"
    using assms(1,2) by (intro concat_map_single) (auto simp: inner)
  also have "\<dots> = f i j"
    using inner [of i] by simp
  finally show ?thesis .
qed

lemma duplicates_at_pair:
  assumes "i < j" "j < length qs"
  shows "filter (at_pair_q i j) (fst (get_duplicate_questions_answers qs)) = pair_questions qs i j"
    and "filter (at_pair_a i j) (snd (get_duplicate_questions_answers qs)) = pair_answers qs i j"
  using assms
  by (simp_all add: get_duplicates_eq nested_select filter_pair_questions filter_pair_answers)

lemma duplicates_positions:
  "e \<in> set (fst (get_duplicate_questions_answers qs)) \<Longrightarrow>
     dq_position1 e < dq_position2 e \<and> dq_position2 e < length qs"
  "a \<in> set (snd (get_duplicate_questions_answers qs)) \<Longrightarrow>
     da_position1 a < da_position2 a \<and> da_position2 a < length qs"
  by (auto simp: get_duplicates_eq pair_questions_def pair_answers_def split: if_splits)

lemma only_pair_0_2:
  assumes only: "\<And>a b. a < b \<Longrightarrow> b < length qs \<Longrightarrow> (qtext (qs ! a) = qtext (qs ! b)) = (a = 0 \<and> b = 2)"
    and len: "2 < length qs"
    and disj: "\<And>a b. a < b \<Longrightarrow> b < length qs \<Longrightarrow> set (choices (qs ! a)) \<inter> set (choices (qs ! b)) = {}"
  shows "get_duplicate_questions_answers qs =
           ([\<lparr>dq_question = qtext (qs ! 0), dq_position1 = 0, dq_position2 = 2\<rparr>], [])"
proof -
  let ?n = "length qs"
  have pq: "pair_questions qs a b = (if a = 0 \<and> b = 2 then
              [\<lparr>dq_question = qtext (qs ! 0), dq_position1 = 0, dq_position2 = 2\<rparr>] else [])"
    if "a < b" "b < ?n" for a b
    using only [OF that] by (auto simp: pair_questions_def)
  have row0: "concat (map (pair_questions qs 0) [Suc 0..<?n]) = pair_questions qs 0 2"
    using len by (intro concat_map_single) (auto simp: pq)
  have rows: "concat (map (pair_questions qs a) [Suc a..<?n]) = []" if "a \<noteq> 0" for a
    using that by (intro concat_map_none) (auto simp: pq)
  have "concat (map (\<lambda>i. concat (map (pair_questions qs i) [Suc i..<?n])) [0..<?n])
          = concat (map (pair_questions qs 0) [Suc 0..<?n])"
    using len by (intro concat_map_single) (auto simp: rows)
  then have dq: "fst (get_duplicate_questions_answers qs) =
        [\<lparr>dq_question = qtext (qs ! 0), dq_position1 = 0, dq_position2 = 2\<rparr>]"
    using len by (simp add: get_duplicates_eq row0 pq)
  have pa: "pair_answers qs a b = []" if "a < b" "b < ?n" for a b
    using disj [OF that] by (auto simp: pair_answers_def filter_empty_conv)
  have "concat (map (\<lambda>i. concat (map (pair_answers qs i) [Suc i..<?n])) [0..<?n]) = []"
    by (intro concat_map_none) (auto simp: pa)
  then have "snd (get_duplicate_questions_answers qs) = []"
    by (simp add: get_duplicates_eq)
  with dq show ?thesis by (simp add: prod_eq_iff)
qed

text \<open>
  Claim C4, amended. For every question list and every pair of positions \<open>i < j\<close>, the
  duplicate-question entries reported for the pair are exactly one entry
  \<open>{text, position1 = i, position2 = j}\<close> when the two texts are equal as strings and none
  otherwise; the duplicate-answer entries reported for the pair are one entry per position
  of \<open>questions[i].choices\<close> whose string occurs in \<open>questions[j].choices\<close>, in that order
  (their number is the number of shared strings when \<open>questions[i].choices\<close> has no repeated
  string); every reported entry carries positions \<open>i < j\<close> inside the list; and on a list
  whose only equal-text pair is (0, 2) and whose choices are pairwise disjoint the result
  is the single duplicate-question entry for (0, 2) and no duplicate-answer entry.
\<close>

theorem find_duplicates_pairs:
  assumes "i < j" and "j < length qs"
  shows
    "filter (at_pair_q i j) (fst (get_duplicate_questions_answers qs)) =
       (if qtext (qs ! i) = qtext (qs ! j)
        then [\<lparr>dq_question = qtext (qs ! i), dq_position1 = i, dq_position2 = j\<rparr>] else [])
     \<and> filter (at_pair_a i j) (snd (get_duplicate_questions_answers qs)) =
         map (\<lambda>a. \<lparr>da_answer = a, da_position1 = i, da_position2 = j\<rparr>)
             (filter (\<lambda>a. a \<in> set (choices (qs ! j))) (choices (qs ! i)))
     \<and> (distinct (choices (qs ! i)) \<longrightarrow>
          length (filter (at_pair_a i j) (snd (get_duplicate_questions_answers qs))) =
            card (set (choices (qs ! i)) \<inter> set (choices (qs ! j))))
     \<and> (\<forall>e \<in> set (fst (get_duplicate_questions_answers qs)).
          dq_position1 e < dq_position2 e \<and> dq_position2 e < length qs)
     \<and> (\<forall>e \<in> set (snd (get_duplicate_questions_answers qs)).
          da_position1 e < da_position2 e \<and> da_position2 e < length qs)
     \<and> ((\<forall>a b. a < b \<and> b < length qs \<longrightarrow>
              (qtext (qs ! a) = qtext (qs ! b)) = (a = 0 \<and> b = 2)) \<and>
         (\<forall>a b. a < b \<and> b < length qs \<longrightarrow>
              set (choices (qs ! a)) \<inter> set (choices (qs ! b)) = {}) \<and> 2 < length qs \<longrightarrow>
         get_duplicate_questions_answers qs =
           ([\<lparr>dq_question = qtext (qs ! 0), dq_position1 = 0, dq_position2 = 2\<rparr>], []))"
proof -
  have shared: "length (filter (\<lambda>a. a \<in> set ys) xs) = card (set xs \<inter> set ys)"
    if "distinct xs" for xs ys :: "pystr list"
  proof -
    have "set (filter (\<lambda>a. a \<in> set ys) xs) = set xs \<inter> set ys" by auto
    moreover have "distinct (filter (\<lambda>a. a \<in> set ys) xs)" using that by simp
    ultimately show ?thesis using distinct_card by metis
  qed
  have c1: "filter (at_pair_q i j) (fst (get_duplicate_questions_answers qs)) =
       (if qtext (qs ! i) = qtext (qs ! j)
        then [\<lparr>dq_question = qtext (qs ! i), dq_position1 = i, dq_position2 = j\<rparr>] else [])"
    using duplicates_at_pair(1) [OF assms] by (simp add: pair_questions_def)
  have c2: "filter (at_pair_a i j) (snd (get_duplicate_questions_answers qs)) =
         map (\<lambda>a. \<lparr>da_answer = a, da_position1 = i, da_position2 = j\<rparr>)
             (filter (\<lambda>a. a \<in> set (choices (qs ! j))) (choices (qs ! i)))"
    using duplicates_at_pair(2) [OF assms] by (simp add: pair_answers_def)
  have c3: "distinct (choices (qs ! i)) \<longrightarrow>
          length (filter (at_pair_a i j) (snd (get_duplicate_questions_answers qs))) =
            card (set (choices (qs ! i)) \<inter> set (choices (qs ! j)))"
    by (simp add: c2 shared)
  have c4: "\<forall>e \<in> set (fst (get_duplicate_questions_answers qs)).
          dq_position1 e < dq_position2 e \<and> dq_position2 e < length qs"
    using duplicates_positions(1) by blast
  have c5: "\<forall>e \<in> set (snd (get_duplicate_questions_answers qs)).
          da_position1 e < da_position2 e \<and> da_position2 e < length qs"
    using duplicates_positions(2) by blast
  have c6: "(\<forall>a b. a < b \<and> b < length qs \<longrightarrow>
              (qtext (qs ! a) = qtext (qs ! b)) = (a = 0 \<and> b = 2)) \<and>
         (\<forall>a b. a < b \<and> b < length qs \<longrightarrow>
              set (choices (qs ! a)) \<inter> set (choices (qs ! b)) = {}) \<and> 2 < length qs \<longrightarrow>
         get_duplicate_questions_answers qs =
           ([\<lparr>dq_question = qtext (qs ! 0), dq_position1 = 0, dq_position2 = 2\<rparr>], [])"
    by (intro impI only_pair_0_2) blast+
  from c1 c2 c3 c4 c5 c6 show ?thesis by blast
qed

text \<open>The theorem at a three-question list with equal texts at positions 0 and 2.\<close>

theorem find_duplicates_pairs_witness:
  "(0::nat) < 2 \<and> 2 < length example_questions
   \<and> distinct (choices (example_questions ! 0))
   \<and> get_duplicate_questions_answers example_questions =
       ([\<lparr>dq_question = str ''Q'', dq_position1 = 0, dq_position2 = 2\<rparr>], [])
   \<and> filter (at_pair_q 0 2) (fst (get_duplicate_questions_answers example_questions)) =
       [\<lparr>dq_question = str ''Q'', dq_position1 = 0, dq_position2 = 2\<rparr>]
   \<and> filter (at_pair_a 0 2) (snd (get_duplicate_questions_answers example_questions)) = []
   \<and> card (set (choices (example_questions ! 0)) \<inter> set (choices (example_questions ! 2))) = 0"
proof -
  have len: "length example_questions = 3" by (simp add: example_questions_def)
  have idx: "(a = 0 \<and> b = 1) \<or> (a = 0 \<and> b = 2) \<or> (a = 1 \<and> b = 2)"
    if "a < b \<and> b < 3" for a b :: nat
    using that by arith
  have texts: "\<forall>a b. a < b \<and> b < length example_questions \<longrightarrow>
      (qtext (example_questions ! a) = qtext (example_questions ! b)) = (a = 0 \<and> b = 2)"
    unfolding len
  proof (intro allI impI)
    fix a b :: nat
    assume "a < b \<and> b < 3"
    from idx [OF this]
    show "(qtext (example_questions ! a) = qtext (example_questions ! b)) = (a = 0 \<and> b = 2)"
      by (elim disjE conjE) (simp_all add: example_questions_def str_def)
  qed
  have disj: "\<forall>a b. a < b \<and> b < length example_questions \<longrightarrow>
      set (choices (example_questions ! a)) \<inter> set (choices (example_questions ! b)) = {}"
    unfolding len
  proof (intro allI impI)
    fix a b :: nat
    assume "a < b \<and> b < 3"
    from idx [OF this]
    show "set (choices (example_questions ! a)) \<inter> set (choices (example_questions ! b)) = {}"
      by (elim disjE conjE) (simp_all add: example_questions_def str_def)
  qed
  have d: "distinct (choices (example_questions ! 0))"
    by (simp add: example_questions_def str_def)
  have l2: "2 < length example_questions" by (simp add: len)
  note T = find_duplicates_pairs [of 0 2 example_questions, OF zero_less_numeral l2]
  from T texts disj l2
  have whole: "get_duplicate_questions_answers example_questions =
      ([\<lparr>dq_question = qtext (example_questions ! 0), dq_position1 = 0, dq_position2 = 2\<rparr>], [])"
    by blast
  have q0: "qtext (example_questions ! 0) = str ''Q''"
    by (simp add: example_questions_def)
  have inter: "card (set (choices (example_questions ! 0)) \<inter> set (choices (example_questions ! 2))) = 0"
    using disj l2 by simp
  show ?thesis
    using whole d l2 inter by (simp add: q0 at_pair_q_def)
qed

text \<open>
  The claim as written counts the choice strings shared by the two questions. With the
  choice \<open>a\<close> twice in the first question and once in the second, one string is shared and
  two entries are reported.
\<close>

theorem find_duplicates_shared_counterexample:
  "length (filter (at_pair_a 0 1) (snd (get_duplicate_questions_answers repeated_choice_questions))) = 2
   \<and> card (set (choices (repeated_choice_questions ! 0)) \<inter> set (choices (repeated_choice_questions ! 1))) = 1"
  by (simp add: get_duplicates_eq pair_answers_def at_pair_a_def repeated_choice_questions_def str_def)

subsection \<open>True division\<close>

lemma pow2_powi: "pow2 k = 2 powi k"
  by (simp add: pow2_def power_int_def inverse_eq_divide power_one_over)

lemma pow2_pos [simp]: "0 < pow2 k"
  by (simp add: pow2_powi zero_less_power_int)

lemma pow2_nonzero [simp]: "pow2 k \<noteq> 0"
  by (metis pow2_pos less_irrefl)

lemma pow2_nonneg [simp]: "0 \<le> pow2 k"
  by (metis pow2_pos less_imp_le)

lemma pow2_abs [simp]: "\<bar>pow2 k\<bar> = pow2 k"
  by (simp add: abs_of_nonneg)






lemma bit_length_0 [simp]: "bit_length 0 = 0"
  by (subst bit_length.simps) simp

lemma bit_length_Suc_0 [simp]: "bit_length (Suc 0) = Suc 0"
  by (subst bit_length.simps) simp


















subsection \<open>Rating\<close>


















subsection \<open>Aiken export\<close>

lemma choices_loop_eq:
  "n + length cs \<le> 1114047 \<Longrightarrow>
   choices_loop (enumerate n cs) acc =
     Inr (acc @ concat (map (\<lambda>i. choice_line (n + i) (cs ! i)) [0..<length cs]))"
proof (induction cs arbitrary: n acc)
  case Nil
  then show ?case by simp
next
  case (Cons c cs)
  have "map (\<lambda>i. choice_line (n + i) ((c # cs) ! i)) [0..<length (c # cs)]
        = choice_line n c # map (\<lambda>i. choice_line (Suc n + i) (cs ! i)) [0..<length cs]"
    by (simp add: upt_conv_Cons map_Suc_upt [symmetric] del: upt_Suc)
  moreover have "Suc n + length cs \<le> 1114047" using Cons.prems by simp
  ultimately show ?case
    using Cons.prems Cons.IH [of "Suc n"]
    by (simp add: chr_def choice_line_def position_letter_def)
qed

lemma questions_loop_eq:
  "\<forall>q \<in> set qs. correct_choice q \<in> set (choices q) \<and> length (choices q) \<le> 1114047 \<Longrightarrow>
   questions_loop qs acc = Inr (acc @ toAiken qs)"
proof (induction qs arbitrary: acc)
  case Nil
  then show ?case by (simp add: toAiken_def)
next
  case (Cons q qs)
  from Cons.prems have mem: "correct_choice q \<in> set (choices q)"
    and len: "length (choices q) \<le> 1114047" by simp_all
  have lines: "choices_loop (enumerate 0 (choices q)) (acc @ qtext q @ nl) =
      Inr ((acc @ qtext q @ nl) @
           concat (map (\<lambda>i. choice_line i (choices q ! i)) [0..<length (choices q)]))"
    using choices_loop_eq [of 0 "choices q"] len by simp
  have "first_index (choices q) (correct_choice q) < length (choices q)"
    using mem by (rule first_index_less)
  with len have letter: "chr (65 + first_index (choices q) (correct_choice q)) =
      Inr (position_letter (first_index (choices q) (correct_choice q)))"
    by (simp add: chr_def position_letter_def)
  have rest: "\<forall>q \<in> set qs. correct_choice q \<in> set (choices q) \<and> length (choices q) \<le> 1114047"
    using Cons.prems by simp
  show ?case
    by (simp add: lines list_index_first [OF mem] letter Cons.IH [OF rest]
          toAiken_def toAiken_block_def)
qed

text \<open>
  Claim C6. For every question list in which each correct choice is one of the question's
  choices (and the choices are few enough for \<^verbatim>\<open>chr\<close> to give each position a letter), the
  export succeeds and its content is, question after question in input order, the stem
  line, one line per choice in the order of the choices, prefixed by the letter of its
  position and a full stop (\<open>A.\<close>, \<open>B.\<close>, \<open>C.\<close>, \<open>D.\<close> for the first four positions), the line
  \<open>ANSWER: \<close> with the letter of the first position at which the correct choice occurs, and
  an empty line.
\<close>

theorem aiken_export_format:
  assumes "\<forall>q \<in> set qs. correct_choice q \<in> set (choices q) \<and> length (choices q) \<le> 1114047"
  shows "aiken_format qs = Inr (concat (map toAiken_block qs))
    \<and> (\<forall>q \<in> set qs.
          first_index (choices q) (correct_choice q) < length (choices q)
        \<and> choices q ! first_index (choices q) (correct_choice q) = correct_choice q
        \<and> (\<forall>j < first_index (choices q) (correct_choice q). choices q ! j \<noteq> correct_choice q))
    \<and> map position_letter [0, 1, 2, 3] = str ''ABCD''"
proof -
  have "aiken_format qs = Inr (concat (map toAiken_block qs))"
    using questions_loop_eq [OF assms, of "[]"] by (simp add: aiken_format_def toAiken_def)
  moreover have "first_index (choices q) (correct_choice q) < length (choices q)
        \<and> choices q ! first_index (choices q) (correct_choice q) = correct_choice q
        \<and> (\<forall>j < first_index (choices q) (correct_choice q). choices q ! j \<noteq> correct_choice q)"
    if "q \<in> set qs" for q
  proof -
    from assms that have mem: "correct_choice q \<in> set (choices q)" by blast
    show ?thesis
      using first_index_less [OF mem] first_index_nth [OF mem]
        first_index_least [of _ "choices q" "correct_choice q"]
      by blast
  qed
  moreover have "map position_letter [0, 1, 2, 3] = str ''ABCD''"
    by (simp add: position_letter_def str_def)
  ultimately show ?thesis by blast
qed

text \<open>The theorem at the sample question: the answer letter is that of the first match.\<close>

theorem aiken_export_format_witness:
  "correct_choice sample_question \<in> set (choices sample_question)
   \<and> length (choices sample_question) \<le> 1114047
   \<and> aiken_format [sample_question] =
       Inr (str ''2 + 2 = ?'' @ nl @
            str ''A. 3'' @ nl @ str ''B. 4'' @ nl @ str ''C. 5'' @ nl @ str ''D. 4'' @ nl @
            str ''ANSWER: B'' @ nl @ nl)"
proof -
  have h: "\<forall>q \<in> set [sample_question].
      correct_choice q \<in> set (choices q) \<and> length (choices q) \<le> 1114047"
    by (simp add: sample_question_def)
  have "toAiken_block sample_question =
      str ''2 + 2 = ?'' @ nl @
      str ''A. 3'' @ nl @ str ''B. 4'' @ nl @ str ''C. 5'' @ nl @ str ''D. 4'' @ nl @
      str ''ANSWER: B'' @ nl @ nl"
    by (simp add: toAiken_block_def sample_question_def choice_line_def position_letter_def
          first_index_def str_def nl_def)
  with aiken_export_format [OF h] h show ?thesis by simp
qed

lemma read_answer_letter_skip:
  assumes "\<exists>c \<in> set ys. c \<noteq> 10"
  shows "read_answer_letter (xs @ 10 # ys) = read_answer_letter ys"
proof -
  have "filter (\<lambda>l. l \<noteq> []) (split_on (\<lambda>c. c = 10) ys) \<noteq> []"
    using assms by (simp add: split_on_has_line)
  then obtain l ls where "rev (filter (\<lambda>l. l \<noteq> []) (split_on (\<lambda>c. c = 10) ys)) = l # ls"
    by (cases "rev (filter (\<lambda>l. l \<noteq> []) (split_on (\<lambda>c. c = 10) ys))") auto
  then show ?thesis
    by (simp add: read_answer_letter_def split_on_append)
qed

lemma read_answer_letter_last:
  assumes "length l = 9" "take 8 l = str ''ANSWER: ''" "\<forall>c \<in> set l. c \<noteq> 10"
  shows "read_answer_letter (l @ nl @ nl) = Some (l ! 8)"
proof -
  have "l \<noteq> []" using assms(1) by auto
  moreover have "split_on (\<lambda>c. c = 10) (l @ 10 # [10]) = [l] @ [[], []]"
    using assms(3) by (simp add: split_on_append split_on_plain)
  ultimately show ?thesis
    using assms(1,2) by (simp add: read_answer_letter_def nl_def)
qed

lemma read_answer_letter_lines:
  assumes "\<exists>c \<in> set tail. c \<noteq> 10"
  shows "read_answer_letter (concat (map (\<lambda>i. choice_line i (cs ! i)) is) @ tail) =
           read_answer_letter tail"
proof (induction "is")
  case Nil
  then show ?case by simp
next
  case (Cons i "is")
  let ?rest = "concat (map (\<lambda>i. choice_line i (cs ! i)) is) @ tail"
  have "\<exists>c \<in> set ?rest. c \<noteq> 10" using assms by auto
  then have "read_answer_letter (([position_letter i] @ str ''. '' @ cs ! i) @ 10 # ?rest) =
      read_answer_letter ?rest"
    by (rule read_answer_letter_skip)
  then show ?case using Cons.IH by (simp add: choice_line_def nl_def)
qed

lemma read_answer_letter_block:
  "read_answer_letter (toAiken_block q) =
     Some (position_letter (first_index (choices q) (correct_choice q)))"
proof -
  let ?k = "position_letter (first_index (choices q) (correct_choice q))"
  let ?l = "str ''ANSWER: '' @ [?k]"
  let ?tail = "?l @ nl @ nl"
  let ?lines = "concat (map (\<lambda>i. choice_line i (choices q ! i)) [0..<length (choices q)])"
  have k: "?k \<noteq> 10" by (simp add: position_letter_def)
  have tail: "\<exists>c \<in> set ?tail. c \<noteq> 10" by (simp add: str_def)
  then have tail': "\<exists>c \<in> set (?lines @ ?tail). c \<noteq> 10" by auto
  have "toAiken_block q = qtext q @ 10 # (?lines @ ?tail)"
    by (simp add: toAiken_block_def nl_def)
  then have "read_answer_letter (toAiken_block q) = read_answer_letter (?lines @ ?tail)"
    using read_answer_letter_skip [OF tail'] by simp
  also have "\<dots> = read_answer_letter ?tail"
    using tail by (rule read_answer_letter_lines)
  also have "\<dots> = Some (?l ! 8)"
    using k by (intro read_answer_letter_last) (auto simp: str_def)
  also have "?l ! 8 = ?k" by (simp add: str_def)
  finally show ?thesis .
qed

text \<open>
  Claim C7. For every question whose correct choice is one of its at most 26 choices, the
  export of the question succeeds, the letter read from the \<open>ANSWER\<close> line of the output is
  one of \<open>A\<close> to \<open>Z\<close>, and the choice at the position of that letter is the correct choice.
\<close>

theorem aiken_answer_letter_roundtrip:
  assumes "correct_choice q \<in> set (choices q)" and "length (choices q) \<le> 26"
  shows "\<exists>out letter.
      aiken_format [q] = Inr out
    \<and> read_answer_letter out = Some letter
    \<and> of_char CHR ''A'' \<le> letter \<and> letter \<le> of_char CHR ''Z''
    \<and> choices q ! (letter - of_char CHR ''A'') = correct_choice q"
proof -
  let ?k = "first_index (choices q) (correct_choice q)"
  have h: "\<forall>q' \<in> set [q]. correct_choice q' \<in> set (choices q') \<and> length (choices q') \<le> 1114047"
    using assms by simp
  have out: "aiken_format [q] = Inr (toAiken_block q)"
    using questions_loop_eq [OF h, of "[]"] by (simp add: aiken_format_def toAiken_def)
  have "?k < length (choices q)" using assms(1) by (rule first_index_less)
  with assms(2) have "?k < 26" by simp
  then have range: "of_char CHR ''A'' \<le> position_letter ?k \<and> position_letter ?k \<le> of_char CHR ''Z''"
    by (simp add: position_letter_def)
  have "choices q ! (position_letter ?k - of_char CHR ''A'') = correct_choice q"
    using first_index_nth [OF assms(1)] by (simp add: position_letter_def)
  with out range read_answer_letter_block [of q] show ?thesis by blast
qed

text \<open>The theorem at the sample question, whose answer letter is \<open>B\<close>.\<close>

theorem aiken_answer_letter_roundtrip_witness:
  "correct_choice sample_question \<in> set (choices sample_question)
   \<and> length (choices sample_question) \<le> 26
   \<and> (\<exists>out. aiken_format [sample_question] = Inr out
        \<and> read_answer_letter out = Some (of_char CHR ''B'')
        \<and> choices sample_question ! 1 = correct_choice sample_question)"
proof -
  have m: "correct_choice sample_question \<in> set (choices sample_question)"
    and l: "length (choices sample_question) \<le> 26"
    by (simp_all add: sample_question_def)
  from aiken_answer_letter_roundtrip [OF m l]
  obtain out letter where out: "aiken_format [sample_question] = Inr out"
    and rd: "read_answer_letter out = Some letter"
    by blast
  have "aiken_format [sample_question] = Inr (toAiken_block sample_question)"
    by (simp add: aiken_format_def sample_question_def chr_def toAiken_block_def
          choice_line_def position_letter_def first_index_def)
  with out rd have "letter = position_letter (first_index (choices sample_question) (correct_choice sample_question))"
    using read_answer_letter_block [of sample_question] by simp
  then have "letter = of_char CHR ''B''"
    by (simp add: position_letter_def first_index_def sample_question_def str_def)
  with m l out rd show ?thesis by (simp add: sample_question_def)
qed

subsection \<open>The generation pipeline\<close>

text \<open>
  Claim C2, amended. Let a run have translated its inputs and set the status of the topic.
  If a model call of the generation then fails, the run ends with that exception and the
  store is not called again: nothing is persisted, and no attempt is made to clear the
  status. If the generation succeeds and the clearing of the status fails, the run ends
  with that exception before anything is persisted. If the clearing succeeds and the
  persisting call fails, the run ends with that exception, the status having been cleared
  before.
\<close>

theorem process_request_failure:
  assumes "translate c (mi_context request) = Inr context'"
    and "translate c (mi_name request) = Inr name'"
    and "update_generated_status c (request\<lparr>mi_context := context', mi_name := name'\<rparr>) True = Inr ()"
  shows
    "(generate_que_n_ans c context' = Inl e \<longrightarrow>
        process_request c calls request =
          (calls @ [UpdateGeneratedStatus (request\<lparr>mi_context := context', mi_name := name'\<rparr>) True],
           Inl e))
   \<and> (generate_que_n_ans c context' = Inr (questions, correct_answers, all_answers) \<and>
      update_generated_status c (request\<lparr>mi_context := context', mi_name := name'\<rparr>) False = Inl e \<longrightarrow>
        process_request c calls request =
          (calls @ [UpdateGeneratedStatus (request\<lparr>mi_context := context', mi_name := name'\<rparr>) True,
                    UpdateGeneratedStatus (request\<lparr>mi_context := context', mi_name := name'\<rparr>) False],
           Inl e))
   \<and> (generate_que_n_ans c context' = Inr (questions, correct_answers, all_answers) \<and>
      update_generated_status c (request\<lparr>mi_context := context', mi_name := name'\<rparr>) False = Inr () \<and>
      send_results_to_fs c (request\<lparr>mi_context := context', mi_name := name'\<rparr>)
        questions correct_answers all_answers context' = Inl e \<longrightarrow>
        process_request c calls request =
          (calls @ [UpdateGeneratedStatus (request\<lparr>mi_context := context', mi_name := name'\<rparr>) True,
                    UpdateGeneratedStatus (request\<lparr>mi_context := context', mi_name := name'\<rparr>) False,
                    SendResultsToFs (request\<lparr>mi_context := context', mi_name := name'\<rparr>)
                      questions correct_answers all_answers context'],
           Inl e))"
  using assms by (simp add: process_request_def Let_def)

lemma echo_generate:
  "generate_que_n_ans echo_pipeline context = Inr ([context], [context], [[context]])"
  "generate_que_n_ans failing_clear_pipeline context = Inr ([context], [context], [[context]])"
  "generate_que_n_ans failing_persist_pipeline context = Inr ([context], [context], [[context]])"
  "generate_que_n_ans failing_model_pipeline context = Inl (Exception (str ''model failure''))"
  by (simp_all add: generate_que_n_ans_def echo_pipeline_def failing_clear_pipeline_def
        failing_persist_pipeline_def failing_model_pipeline_def)

text \<open>The theorem at a failing model, a failing clearing call and a failing persisting call.\<close>

theorem process_request_failure_witness:
  "process_request failing_model_pipeline [] water_request =
     ([UpdateGeneratedStatus water_request True], Inl (Exception (str ''model failure'')))
   \<and> process_request failing_clear_pipeline [] water_request =
     ([UpdateGeneratedStatus water_request True, UpdateGeneratedStatus water_request False],
      Inl (Exception (str ''store failure'')))
   \<and> process_request failing_persist_pipeline [] water_request =
     ([UpdateGeneratedStatus water_request True, UpdateGeneratedStatus water_request False,
       SendResultsToFs water_request [str ''Water boils.''] [str ''Water boils.'']
         [[str ''Water boils.'']] (str ''Water boils.'')],
      Inl (Exception (str ''store failure'')))"
proof -
  have same: "water_request\<lparr>mi_context := mi_context water_request, mi_name := mi_name water_request\<rparr>
      = water_request" by simp
  have ctx: "mi_context water_request = str ''Water boils.''" by (simp add: water_request_def)
  have a: "process_request failing_model_pipeline [] water_request =
     ([UpdateGeneratedStatus water_request True], Inl (Exception (str ''model failure'')))"
    using process_request_failure [where c = failing_model_pipeline and request = water_request
        and context' = "mi_context water_request" and name' = "mi_name water_request"
        and e = "Exception (str ''model failure'')" and calls = "[]"]
    unfolding same
    by (simp add: echo_generate) (simp add: failing_model_pipeline_def echo_pipeline_def)
  have b: "process_request failing_clear_pipeline [] water_request =
     ([UpdateGeneratedStatus water_request True, UpdateGeneratedStatus water_request False],
      Inl (Exception (str ''store failure'')))"
    using process_request_failure [where c = failing_clear_pipeline and request = water_request
        and context' = "mi_context water_request" and name' = "mi_name water_request"
        and e = "Exception (str ''store failure'')" and questions = "[mi_context water_request]"
        and correct_answers = "[mi_context water_request]"
        and all_answers = "[[mi_context water_request]]" and calls = "[]"]
    unfolding same
    by (simp add: echo_generate) (simp add: failing_clear_pipeline_def echo_pipeline_def)
  have c: "process_request failing_persist_pipeline [] water_request =
     ([UpdateGeneratedStatus water_request True, UpdateGeneratedStatus water_request False,
       SendResultsToFs water_request [str ''Water boils.''] [str ''Water boils.'']
         [[str ''Water boils.'']] (str ''Water boils.'')],
      Inl (Exception (str ''store failure'')))"
    using process_request_failure [where c = failing_persist_pipeline and request = water_request
        and context' = "mi_context water_request" and name' = "mi_name water_request"
        and e = "Exception (str ''store failure'')" and questions = "[mi_context water_request]"
        and correct_answers = "[mi_context water_request]"
        and all_answers = "[[mi_context water_request]]" and calls = "[]"]
    unfolding same
    by (simp add: echo_generate) (simp add: failing_persist_pipeline_def echo_pipeline_def ctx)
  from a b c show ?thesis by blast
qed

text \<open>
  The claim as written has the run attempt to clear the status after any failure. With a
  failing model the status is set, the run fails, and the only store call is the setting.
\<close>

theorem flag_not_cleared_counterexample:
  "update_generated_status failing_model_pipeline water_request True = Inr ()
   \<and> fst (process_request failing_model_pipeline [] water_request) =
       [UpdateGeneratedStatus water_request True]
   \<and> snd (process_request failing_model_pipeline [] water_request) =
       Inl (Exception (str ''model failure''))
   \<and> \<not> clearing_attempted (fst (process_request failing_model_pipeline [] water_request))"
  by (simp add: process_request_def generate_que_n_ans_def failing_model_pipeline_def
        echo_pipeline_def clearing_attempted_def Let_def)

lemma strip_empty_iff: "(strip s = []) = list_all isspace s"
proof -
  have "(\<forall>x \<in> set (dropWhile isspace s). isspace x) = (dropWhile isspace s = [])"
  proof
    assume all: "\<forall>x \<in> set (dropWhile isspace s). isspace x"
    show "dropWhile isspace s = []"
    proof (rule ccontr)
      assume ne: "dropWhile isspace s \<noteq> []"
      then have "\<not> isspace (hd (dropWhile isspace s))" by (rule hd_dropWhile)
      moreover have "hd (dropWhile isspace s) \<in> set (dropWhile isspace s)"
        using ne by (rule hd_in_set)
      ultimately show False using all by blast
    qed
  next
    assume "dropWhile isspace s = []"
    then show "\<forall>x \<in> set (dropWhile isspace s). isspace x"
      by (simp only: list.set ball_empty)
  qed
  then have "(strip s = []) = (dropWhile isspace s = [])"
    by (simp add: strip_def dropWhile_eq_Nil_conv)
  then show ?thesis
    by (simp add: dropWhile_eq_Nil_conv list_all_iff)
qed

lemma split_sentences_fragments: "split_sentences context = map strip (fragments context)"
  by (simp add: split_sentences_def fragments_def strip_empty_iff)

lemma requests_loop_run_each:
  "requests_loop c request sentences calls results =
     (case run_each c calls
             (map (\<lambda>sentence. \<lparr>mi_context = sentence, mi_uid = mi_uid request,
                                 mi_name = mi_name request\<rparr>) sentences) of
        (calls', Inl e) \<Rightarrow> (calls', Inl e)
      | (calls', Inr outs) \<Rightarrow> (calls', Inr (results @ outs)))"
proof (induction sentences arbitrary: calls results)
  case Nil
  then show ?case by simp
next
  case (Cons sentence rest)
  show ?case
    by (simp add: Cons.IH split: prod.splits sum.splits)
qed

lemma run_each_length:
  "run_each c calls requests = (calls', Inr outs) \<Longrightarrow> length outs = length requests"
proof (induction requests arbitrary: calls calls' outs)
  case Nil
  then show ?case by simp
next
  case (Cons request rest)
  then show ?case
    by (auto split: prod.splits sum.splits)
qed

text \<open>
  Claim C5, amended. For every context, \<^verbatim>\<open>get_questions\<close> runs the pipeline once per
  fragment of the context (the pieces between the characters \<open>.\<close>, \<open>!\<close> and \<open>?\<close> that are
  neither empty nor all whitespace), on the stripped fragment, one run after the other in
  fragment order, and stops at the first run that fails. When all runs succeed, the data
  it returns is the list of the runs' outputs in that order, one element per fragment:
  the outputs are elements of the list, not spliced into one another.
\<close>

theorem get_questions_runs_in_order:
  "get_questions c calls request =
     (case run_each c calls
             (map (\<lambda>fragment. \<lparr>mi_context = strip fragment, mi_uid = mi_uid request,
                                 mi_name = mi_name request\<rparr>)
                  (fragments (mi_context request))) of
        (calls', Inl e) \<Rightarrow> (calls', Inl e)
      | (calls', Inr outs) \<Rightarrow>
          (calls', Inr (JObj [(str ''status'', JNum 200), (str ''data'', JArr outs)])))
   \<and> (\<forall>calls' outs.
        run_each c calls
          (map (\<lambda>fragment. \<lparr>mi_context = strip fragment, mi_uid = mi_uid request,
                              mi_name = mi_name request\<rparr>)
               (fragments (mi_context request))) = (calls', Inr outs)
        \<longrightarrow> length outs = length (fragments (mi_context request)))"
proof -
  let ?requests = "map (\<lambda>fragment. \<lparr>mi_context = strip fragment, mi_uid = mi_uid request,
                                 mi_name = mi_name request\<rparr>) (fragments (mi_context request))"
  have "requests_loop c request (split_sentences (mi_context request)) calls [] =
     (case run_each c calls ?requests of
        (calls', Inl e) \<Rightarrow> (calls', Inl e)
      | (calls', Inr outs) \<Rightarrow> (calls', Inr outs))"
    by (simp add: requests_loop_run_each split_sentences_fragments comp_def
          split: prod.splits sum.splits)
  then have first: "get_questions c calls request =
     (case run_each c calls ?requests of
        (calls', Inl e) \<Rightarrow> (calls', Inl e)
      | (calls', Inr outs) \<Rightarrow>
          (calls', Inr (JObj [(str ''status'', JNum 200), (str ''data'', JArr outs)])))"
    by (simp add: get_questions_def split: prod.splits sum.splits)
  have second: "length outs = length (fragments (mi_context request))"
    if "run_each c calls ?requests = (calls', Inr outs)" for calls' outs
    using run_each_length [OF that] by simp
  from first second show ?thesis by blast
qed

lemma sky_fragments:
  "fragments (mi_context sky_request) = [str ''The sky is blue'', str '' Water boils at 100 degrees'']"
  by (simp add: fragments_def sky_request_def str_def sentence_delimiters_def isspace_def)

lemma echo_process_request:
  "process_request echo_pipeline calls request =
     (calls @ [UpdateGeneratedStatus request True, UpdateGeneratedStatus request False,
               SendResultsToFs request [mi_context request] [mi_context request]
                 [[mi_context request]] (mi_context request)],
      Inr (JArr [JStr (mi_context request)]))"
  by (simp add: process_request_def generate_que_n_ans_def echo_pipeline_def Let_def)

text \<open>The theorem at the two-sentence context of the specification.\<close>

theorem get_questions_runs_in_order_witness:
  "\<exists>calls'.
     get_questions echo_pipeline [] sky_request =
       (calls', Inr (JObj [(str ''status'', JNum 200),
                           (str ''data'', JArr [JArr [JStr (str ''The sky is blue'')],
                                               JArr [JStr (str ''Water boils at 100 degrees'')]])]))
     \<and> length (fragments (mi_context sky_request)) = 2"
proof -
  have strips: "strip (str ''The sky is blue'') = str ''The sky is blue''"
    "strip (str '' Water boils at 100 degrees'') = str ''Water boils at 100 degrees''"
    by (simp_all add: strip_def str_def isspace_def)
  obtain calls' where run:
    "run_each echo_pipeline []
       (map (\<lambda>fragment. \<lparr>mi_context = strip fragment, mi_uid = mi_uid sky_request,
                           mi_name = mi_name sky_request\<rparr>)
            (fragments (mi_context sky_request))) =
     (calls', Inr [JArr [JStr (str ''The sky is blue'')],
                   JArr [JStr (str ''Water boils at 100 degrees'')]])"
    by (simp add: sky_fragments strips echo_process_request)
  note T = get_questions_runs_in_order [of echo_pipeline "[]" sky_request]
  from T run have "length [JArr [JStr (str ''The sky is blue'')],
                   JArr [JStr (str ''Water boils at 100 degrees'')]]
      = length (fragments (mi_context sky_request))"
    by blast
  moreover from T run have "get_questions echo_pipeline [] sky_request =
       (calls', Inr (JObj [(str ''status'', JNum 200),
                           (str ''data'', JArr [JArr [JStr (str ''The sky is blue'')],
                                               JArr [JStr (str ''Water boils at 100 degrees'')]])]))"
    by simp
  ultimately show ?thesis by auto
qed

text \<open>
  The claim as written makes the result the concatenation of the runs' outputs. With runs
  that each return a one-question list, the data is a list of two lists, which is not the
  two-question list.
\<close>

theorem get_questions_nested_counterexample:
  "snd (process_request echo_pipeline []
          \<lparr>mi_context = str ''The sky is blue'', mi_uid = str ''u1'', mi_name = str ''facts''\<rparr>)
     = Inr (JArr [JStr (str ''The sky is blue'')])
   \<and> snd (process_request echo_pipeline []
          \<lparr>mi_context = str ''Water boils at 100 degrees'', mi_uid = str ''u1'', mi_name = str ''facts''\<rparr>)
     = Inr (JArr [JStr (str ''Water boils at 100 degrees'')])
   \<and> snd (get_questions echo_pipeline [] sky_request) =
       Inr (JObj [(str ''status'', JNum 200),
                  (str ''data'', JArr [JArr [JStr (str ''The sky is blue'')],
                                      JArr [JStr (str ''Water boils at 100 degrees'')]])])
   \<and> JArr [JArr [JStr (str ''The sky is blue'')], JArr [JStr (str ''Water boils at 100 degrees'')]]
       \<noteq> JArr ([JStr (str ''The sky is blue'')] @ [JStr (str ''Water boils at 100 degrees'')])"
proof -
  have sentences: "split_sentences (mi_context sky_request) =
      [str ''The sky is blue'', str ''Water boils at 100 degrees'']"
    by (simp add: split_sentences_def sky_request_def strip_def str_def sentence_delimiters_def
          isspace_def)
  have "snd (get_questions echo_pipeline [] sky_request) =
       Inr (JObj [(str ''status'', JNum 200),
                  (str ''data'', JArr [JArr [JStr (str ''The sky is blue'')],
                                      JArr [JStr (str ''Water boils at 100 degrees'')]])])"
    by (simp add: get_questions_def sentences echo_process_request)
  then show ?thesis
    by (simp add: echo_process_request)
qed

end
